theory Spec2Isabelle
  imports Main
begin

section \<open>Barcode to guitar tablature: the embedding of \<open>barcode_to_tab.py\<close>\<close>

text \<open>
  The converter reads a barcode string, keeps its digits, maps each digit to a note
  (melodic mode) or to a power chord (power-chord mode) and draws the notes as six
  lines of ASCII tablature.

  A Python \<open>str\<close> is a sequence of code points. It is modelled as a \<open>string\<close> whose
  characters are the code points U+0000 to U+00FF (\<open>of_char c\<close> is the code point), so
  \<open>length\<close> counts what Python's \<open>len\<close> counts. Python integers are \<open>int\<close>. Every
  exception the code can raise is a value of \<open>error\<close>, and a function that can raise
  returns \<open>error + 'a\<close> with \<open>Inl\<close> for the exception.
\<close>

subsection \<open>Python built-ins used by the converter\<close>

datatype error = ValueError | IndexError | ZeroDivisionError

text \<open>
  \<open>str.isdigit\<close>: true for the characters whose Unicode property \<open>Numeric_Type\<close> is
  \<open>Decimal\<close> or \<open>Digit\<close>. Below U+0100 these are \<open>0\<close> to \<open>9\<close> (decimal) and the three
  superscripts U+00B2, U+00B3 and U+00B9 (digit, not decimal).
\<close>

definition isdigit :: "char \<Rightarrow> bool" where
  "isdigit c =
     (let n = (of_char c :: nat)
      in (48 \<le> n \<and> n \<le> 57) \<or> n = 0xB2 \<or> n = 0xB3 \<or> n = 0xB9)"

text \<open>
  \<open>int(c)\<close> for a one-character string \<open>c\<close>: the value of a decimal digit, and
  \<open>ValueError\<close> for every other character (the superscripts included).
\<close>

definition py_int :: "char \<Rightarrow> error + int" where
  "py_int c =
     (let n = (of_char c :: nat)
      in if 48 \<le> n \<and> n \<le> 57 then Inr (int n - 48) else Inl ValueError)"

text \<open>
  \<open>str(n)\<close> for an integer: its decimal text, with a leading minus sign when negative.
  CPython 3.11 and later (and the security releases of the earlier versions) limit the
  conversion: it raises \<open>ValueError\<close> when the number has more digits than
  \<open>sys.int_max_str_digits\<close>, which is 4300 unless the interpreter is started otherwise.
\<close>

fun str_nat :: "nat \<Rightarrow> string" where
  "str_nat n =
     (if n < 10 then [''0123456789'' ! n]
      else str_nat (n div 10) @ [''0123456789'' ! (n mod 10)])"

declare str_nat.simps [simp del]

definition int_max_str_digits :: nat where
  "int_max_str_digits = 4300"

definition py_str :: "int \<Rightarrow> error + string" where
  "py_str n =
     (let ds = str_nat (nat \<bar>n\<bar>)
      in if length ds > int_max_str_digits then Inl ValueError
         else Inr (if n < 0 then CHR ''-'' # ds else ds))"

text \<open>
  Indexing a list of length \<open>len\<close> with \<open>i\<close>: a negative index counts from the end, and
  an index outside \<open>[-len, len)\<close> raises \<open>IndexError\<close>.
\<close>

definition py_index :: "nat \<Rightarrow> int \<Rightarrow> error + nat" where
  "py_index len i =
     (if 0 \<le> i \<and> i < int len then Inr (nat i)
      else if i < 0 \<and> - int len \<le> i then Inr (nat (int len + i))
      else Inl IndexError)"

text \<open>\<open>sep.join(xs)\<close>.\<close>

fun join :: "string \<Rightarrow> string list \<Rightarrow> string" where
  "join sep [] = []"
| "join sep [x] = x"
| "join sep (x # y # ys) = x @ sep @ join sep (y # ys)"

subsection \<open>Data model\<close>

datatype ScaleMode =
  MINOR_PENTATONIC | NATURAL_MINOR | HARMONIC_MINOR | CHROMATIC | POWER_CHORD

fun ScaleMode_value :: "ScaleMode \<Rightarrow> string" where
  "ScaleMode_value MINOR_PENTATONIC = ''minor_pentatonic''"
| "ScaleMode_value NATURAL_MINOR = ''natural_minor''"
| "ScaleMode_value HARMONIC_MINOR = ''harmonic_minor''"
| "ScaleMode_value CHROMATIC = ''chromatic''"
| "ScaleMode_value POWER_CHORD = ''power_chord''"

record GuitarNote =
  string :: int
  fret :: int
  duration :: int

text \<open>The class attribute \<open>SCALES\<close>: one interval list for each member of the enum.\<close>

fun SCALES :: "ScaleMode \<Rightarrow> int list" where
  "SCALES MINOR_PENTATONIC = [0, 3, 5, 7, 10]"
| "SCALES NATURAL_MINOR = [0, 2, 3, 5, 7, 8, 10]"
| "SCALES HARMONIC_MINOR = [0, 2, 3, 5, 7, 8, 11]"
| "SCALES CHROMATIC = map int [0..<13]"
| "SCALES POWER_CHORD = [0, 7]"

text \<open>The converter object: the four attributes \<open>__init__\<close> sets.\<close>

record BarcodeToTab =
  root_note :: string
  root_fret :: int
  scale_mode :: ScaleMode
  scale :: "int list"

definition BarcodeToTab_init :: "string \<Rightarrow> int \<Rightarrow> ScaleMode \<Rightarrow> BarcodeToTab" where
  "BarcodeToTab_init rn rf m =
     \<lparr>root_note = rn, root_fret = rf, scale_mode = m, scale = SCALES m\<rparr>"

text \<open>The configuration the command line builds when no flag is given.\<close>

definition default_converter :: BarcodeToTab where
  "default_converter = BarcodeToTab_init ''E'' 0 MINOR_PENTATONIC"

subsection \<open>Digit extraction\<close>

text \<open>
  \<open>[int(c) for c in barcode if c.isdigit()]\<close>: the characters are visited left to
  right, and the first \<open>int(c)\<close> that raises ends the comprehension.
\<close>

fun digits :: "string \<Rightarrow> error + int list" where
  "digits [] = Inr []"
| "digits (c # cs) =
     (if isdigit c then
        (case py_int c of
           Inl e \<Rightarrow> Inl e
         | Inr d \<Rightarrow> (case digits cs of Inl e \<Rightarrow> Inl e | Inr ds \<Rightarrow> Inr (d # ds)))
      else digits cs)"

subsection \<open>The melodic generator\<close>

text \<open>\<open>while fret > 19: fret -= 12\<close>.\<close>

function normalize_fret :: "int \<Rightarrow> int" where
  "normalize_fret fr = (if fr > 19 then normalize_fret (fr - 12) else fr)"
  by pat_completeness auto
termination
  by (relation "measure (\<lambda>fr. nat (fr - 19))") auto

declare normalize_fret.simps [simp del]

text \<open>
  The body of \<open>for i, digit in enumerate(digits)\<close>, with the loop's variables as
  arguments: the index \<open>i\<close>, \<open>current_string\<close> and the list \<open>notes\<close> built so far.
  \<open>digit % len(self.scale)\<close> raises \<open>ZeroDivisionError\<close> on an empty scale; the index
  \<open>scale_degree\<close> is then within the scale.
\<close>

fun melodic_loop ::
  "BarcodeToTab \<Rightarrow> nat \<Rightarrow> int \<Rightarrow> int list \<Rightarrow> GuitarNote list \<Rightarrow> error + GuitarNote list"
where
  "melodic_loop self i current_string [] notes = Inr notes"
| "melodic_loop self i current_string (digit # ds) notes =
     (if length (scale self) = 0 then Inl ZeroDivisionError
      else
        let scale_degree = digit mod int (length (scale self));
            fret0 = root_fret self + scale self ! nat scale_degree;
            fret1 = normalize_fret fret0;
            current_string' =
              (if i > 0 \<and> i mod 4 = 0 then (current_string + 1) mod 6 else current_string);
            duration1 = (if digit = 0 \<or> digit = 5 then 2 else 1)
        in melodic_loop self (i + 1) current_string' ds
             (notes @ [\<lparr>string = current_string', fret = fret1, duration = duration1\<rparr>]))"

text \<open>
  \<open>barcode_to_notes\<close> prints a line when the barcode has no digit. Standard output is
  the list of lines printed so far, passed in and returned.
\<close>

definition barcode_to_notes ::
  "BarcodeToTab \<Rightarrow> string \<Rightarrow> string list \<Rightarrow> (error + GuitarNote list) \<times> string list"
where
  "barcode_to_notes self barcode out =
     (case digits barcode of
        Inl e \<Rightarrow> (Inl e, out)
      | Inr ds \<Rightarrow>
          if ds = [] then (Inr [], out @ [''No digits found in barcode''])
          else (melodic_loop self 0 0 ds [], out))"

subsection \<open>The power-chord generator\<close>

fun power_loop :: "int list \<Rightarrow> GuitarNote list \<Rightarrow> GuitarNote list" where
  "power_loop [] notes = notes"
| "power_loop (digit # ds) notes =
     (let root_fret1 = digit mod 13;
          notes1 = notes @ [\<lparr>string = 0, fret = root_fret1, duration = 2\<rparr>];
          notes2 = notes1 @ [\<lparr>string = 1, fret = root_fret1 + 2, duration = 2\<rparr>];
          notes3 =
            (if digit = 0 \<or> digit = 5 then
               (notes2 @ [\<lparr>string = 0, fret = root_fret1, duration = 1\<rparr>])
                 @ [\<lparr>string = 1, fret = root_fret1 + 2, duration = 1\<rparr>]
             else notes2)
      in power_loop ds notes3)"

definition generate_power_chord_riff :: "BarcodeToTab \<Rightarrow> string \<Rightarrow> error + GuitarNote list" where
  "generate_power_chord_riff self barcode =
     (case digits barcode of
        Inl e \<Rightarrow> Inl e
      | Inr ds \<Rightarrow> if ds = [] then Inr [] else Inr (power_loop ds []))"

subsection \<open>The renderer\<close>

text \<open>
  \<open>for char_idx, char in enumerate(fret_str)\<close>: a character is written only when its
  column is below \<open>total_length\<close>; the row and the column are then indexed the way
  Python indexes a list. The six rows are six separate lists, so writing one row leaves
  the others as they are.
\<close>

fun place_fret ::
  "int \<Rightarrow> int \<Rightarrow> int \<Rightarrow> int \<Rightarrow> string \<Rightarrow> string list \<Rightarrow> error + string list"
where
  "place_fret total_length string_idx position char_idx [] tab_lines = Inr tab_lines"
| "place_fret total_length string_idx position char_idx (ch # rest) tab_lines =
     (if position + char_idx < total_length then
        (case py_index (length tab_lines) string_idx of
           Inl e \<Rightarrow> Inl e
         | Inr r \<Rightarrow>
             (case py_index (length (tab_lines ! r)) (position + char_idx) of
                Inl e \<Rightarrow> Inl e
              | Inr c \<Rightarrow>
                  place_fret total_length string_idx position (char_idx + 1) rest
                    (tab_lines[r := (tab_lines ! r)[c := ch]])))
      else place_fret total_length string_idx position (char_idx + 1) rest tab_lines)"

text \<open>
  \<open>for note in notes\<close>, with the cursor \<open>position\<close> as an argument. \<open>str(note.fret)\<close> is
  evaluated before any character of the note is placed.
\<close>

fun place_notes :: "int \<Rightarrow> int \<Rightarrow> GuitarNote list \<Rightarrow> string list \<Rightarrow> error + string list" where
  "place_notes total_length position [] tab_lines = Inr tab_lines"
| "place_notes total_length position (note # notes) tab_lines =
     (case py_str (fret note) of
        Inl e \<Rightarrow> Inl e
      | Inr fret_str \<Rightarrow>
          (case place_fret total_length (5 - string note) position 0 fret_str tab_lines of
             Inl e \<Rightarrow> Inl e
           | Inr tab_lines' \<Rightarrow>
               place_notes total_length (position + duration note * 2) notes tab_lines'))"

definition total_length :: "GuitarNote list \<Rightarrow> int" where
  "total_length notes = sum_list (map (\<lambda>note. duration note * 2) notes) + 2"

text \<open>The grid after the placing loop, for a non-empty list of notes.\<close>

definition tab_grid :: "GuitarNote list \<Rightarrow> error + string list" where
  "tab_grid notes =
     place_notes (total_length notes) 1 notes
       (replicate 6 (replicate (nat (total_length notes)) CHR ''-''))"

definition tuning_labels :: "string list" where
  "tuning_labels = [''e|'', ''B|'', ''G|'', ''D|'', ''A|'', ''E|'']"

definition notes_to_tab :: "BarcodeToTab \<Rightarrow> GuitarNote list \<Rightarrow> string \<Rightarrow> error + string" where
  "notes_to_tab self notes title =
     (if notes = [] then Inr ''No notes to display''
      else
        (case tab_grid notes of
           Inl e \<Rightarrow> Inl e
         | Inr tab_lines \<Rightarrow>
             Inr (join [CHR 0x0A]
               ([[CHR 0x0A] @ title,
                 ''Scale: '' @ ScaleMode_value (scale_mode self) @ '' in '' @ root_note self,
                 replicate 60 CHR ''='']
                @ map (\<lambda>(label, line). label @ line @ ''|'') (zip tuning_labels tab_lines)
                @ [replicate 60 CHR ''='']))))"

subsection \<open>The facade\<close>

definition convert ::
  "BarcodeToTab \<Rightarrow> string \<Rightarrow> bool \<Rightarrow> string list \<Rightarrow> (error + string) \<times> string list"
where
  "convert self barcode use_power_chords out =
     (if use_power_chords then
        (case generate_power_chord_riff self barcode of
           Inl e \<Rightarrow> (Inl e, out)
         | Inr notes \<Rightarrow> (notes_to_tab self notes (''Power Chord Riff - '' @ barcode), out))
      else
        (case barcode_to_notes self barcode out of
           (Inl e, out') \<Rightarrow> (Inl e, out')
         | (Inr notes, out') \<Rightarrow>
             (notes_to_tab self notes (''Barcode Riff - '' @ barcode), out')))"

subsection \<open>Notions used to state the properties\<close>

text \<open>
  A decimal digit is one of \<open>0\<close> to \<open>9\<close> (Python's \<open>str.isdecimal\<close> below U+0100), and
  \<open>digit_value\<close> is the number it stands for.
\<close>

definition isdecimal :: "char \<Rightarrow> bool" where
  "isdecimal c = (48 \<le> (of_char c :: nat) \<and> (of_char c :: nat) \<le> 57)"

definition digit_value :: "char \<Rightarrow> int" where
  "digit_value c = int (of_char c) - 48"

text \<open>
  The note the melodic loop appends for the digit \<open>d\<close> at index \<open>i\<close>, in closed form, and
  the notes of a whole digit list.
\<close>

definition melodic_note :: "BarcodeToTab \<Rightarrow> nat \<Rightarrow> int \<Rightarrow> GuitarNote" where
  "melodic_note self i d =
     \<lparr>string = int ((i div 4) mod 6),
      fret = normalize_fret (root_fret self + scale self ! nat (d mod int (length (scale self)))),
      duration = (if d = 0 \<or> d = 5 then 2 else 1)\<rparr>"

definition melodic_notes :: "BarcodeToTab \<Rightarrow> int list \<Rightarrow> GuitarNote list" where
  "melodic_notes self ds = map (\<lambda>(j, d). melodic_note self j d) (zip [0 ..< length ds] ds)"

text \<open>The notes the power-chord loop appends for one digit.\<close>

definition power_chord :: "int \<Rightarrow> GuitarNote list" where
  "power_chord d =
     [\<lparr>string = 0, fret = d mod 13, duration = 2\<rparr>,
      \<lparr>string = 1, fret = d mod 13 + 2, duration = 2\<rparr>]
     @ (if d = 0 \<or> d = 5 then
          [\<lparr>string = 0, fret = d mod 13, duration = 1\<rparr>,
           \<lparr>string = 1, fret = d mod 13 + 2, duration = 1\<rparr>]
        else [])"

text \<open>
  A note of the data model: a string index from 0 to 5, a duration of at least 1, and a
  fret that \<open>str\<close> can write, that is, of at most \<open>int_max_str_digits\<close> digits. Every fret
  from 0 to 24, and every fret either generator returns for a root fret that is not
  negative, is such a fret. \<open>GuitarNote\<close> itself accepts any three integers.
\<close>

definition valid_note :: "GuitarNote \<Rightarrow> bool" where
  "valid_note n =
     (0 \<le> string n \<and> string n \<le> 5 \<and> \<bar>fret n\<bar> < 10 ^ int_max_str_digits \<and>
      1 \<le> duration n)"

text \<open>The decimal digit string of an integer, as the specification of the renderer has it.\<close>

definition decimal_text :: "int \<Rightarrow> string" where
  "decimal_text n = (if n < 0 then CHR ''-'' # str_nat (nat (- n)) else str_nat (nat n))"

text \<open>
  The renderer in the words of its specification, one cell at a time. A cursor starts at
  a column and moves right by twice the duration after each note; a note writes the
  decimal text of its fret from the cursor on, on row \<open>5 - string\<close>, and only into columns
  below the width. \<open>tab_cell width cursor notes r c old\<close> is the character that ends up
  in row \<open>r\<close>, column \<open>c\<close>, where \<open>old\<close> was before.
\<close>

fun tab_cell :: "int \<Rightarrow> int \<Rightarrow> GuitarNote list \<Rightarrow> nat \<Rightarrow> nat \<Rightarrow> char \<Rightarrow> char" where
  "tab_cell width cursor [] r c old = old"
| "tab_cell width cursor (n # ns) r c old =
     tab_cell width (cursor + duration n * 2) ns r c
       (if int r = 5 - string n \<and> cursor \<le> int c \<and>
           int c < cursor + int (length (decimal_text (fret n))) \<and> int c < width
        then decimal_text (fret n) ! nat (int c - cursor) else old)"

section \<open>Properties\<close>

subsection \<open>Digit extraction\<close>

lemma isdecimal_isdigit: "isdecimal c \<Longrightarrow> isdigit c"
  by (simp add: isdecimal_def isdigit_def Let_def)

lemma py_int_decimal: "isdecimal c \<Longrightarrow> py_int c = Inr (digit_value c)"
  by (simp add: isdecimal_def py_int_def digit_value_def Let_def)

lemma py_int_not_decimal: "\<not> isdecimal c \<Longrightarrow> py_int c = Inl ValueError"
  by (simp add: isdecimal_def py_int_def Let_def)

lemma digit_value_range: "isdecimal c \<Longrightarrow> 0 \<le> digit_value c \<and> digit_value c \<le> 9"
  by (simp add: isdecimal_def digit_value_def)

lemma digits_Inr:
  "digits b = Inr ds \<Longrightarrow>
     ds = map digit_value (filter isdecimal b) \<and> filter isdigit b = filter isdecimal b"
proof (induction b arbitrary: ds)
  case Nil
  then show ?case by simp
next
  case (Cons c cs)
  show ?case
  proof (cases "isdigit c")
    case False
    then have "\<not> isdecimal c" using isdecimal_isdigit by blast
    with False Cons show ?thesis by simp
  next
    case True
    show ?thesis
    proof (cases "isdecimal c")
      case False
      with True Cons.prems show ?thesis by (simp add: py_int_not_decimal)
    next
      case dec: True
      from True dec Cons.prems obtain ds' where
        "digits cs = Inr ds'" "ds = digit_value c # ds'"
        by (auto simp: py_int_decimal split: sum.splits)
      with Cons.IH [of ds'] True dec show ?thesis by simp
    qed
  qed
qed

lemma digits_Inl:
  "digits b = Inl e \<Longrightarrow> e = ValueError \<and> (\<exists>c \<in> set b. isdigit c \<and> \<not> isdecimal c)"
proof (induction b)
  case Nil
  then show ?case by simp
next
  case (Cons c cs)
  show ?case
  proof (cases "isdigit c \<and> \<not> isdecimal c")
    case True
    with Cons.prems show ?thesis by (simp add: py_int_not_decimal)
  next
    case False
    with Cons show ?thesis
      by (auto simp: py_int_decimal split: if_splits sum.splits)
  qed
qed

lemma digits_total:
  assumes "\<forall>c \<in> set b. isdigit c \<longrightarrow> isdecimal c"
  shows "digits b = Inr (map digit_value (filter isdecimal b))"
proof (cases "digits b")
  case (Inl e)
  from digits_Inl [OF Inl] obtain c where "c \<in> set b" "isdigit c" "\<not> isdecimal c"
    by auto
  with assms have False by simp
  then show ?thesis ..
next
  case (Inr ds)
  from digits_Inr [OF Inr] have "ds = map digit_value (filter isdecimal b)" by simp
  with Inr show ?thesis by simp
qed

lemma digits_range:
  assumes "digits b = Inr ds" "d \<in> set ds"
  shows "0 \<le> d \<and> d \<le> 9"
proof -
  from digits_Inr [OF assms(1)] have "ds = map digit_value (filter isdecimal b)" by simp
  with assms(2) obtain c where "isdecimal c" "d = digit_value c" by auto
  then show ?thesis using digit_value_range by simp
qed

subsection \<open>The normalisation loop\<close>

lemma normalize_fret_le: "normalize_fret f \<le> 19"
  by (induction f rule: normalize_fret.induct) (simp add: normalize_fret.simps)

lemma normalize_fret_nonneg: "0 \<le> f \<Longrightarrow> 0 \<le> normalize_fret f"
proof (induction f rule: normalize_fret.induct)
  case (1 fr)
  show ?case
  proof (cases "fr > 19")
    case True
    with 1 show ?thesis by (simp add: normalize_fret.simps [of fr])
  next
    case False
    with 1 show ?thesis by (simp add: normalize_fret.simps [of fr])
  qed
qed

subsection \<open>The generators in closed form\<close>

lemma string_step:
  "(if 0 < i \<and> i mod 4 = 0 then (int (((i - 1) div 4) mod 6) + 1) mod 6
    else int (((i - 1) div 4) mod 6)) = int ((i div 4) mod 6)"
proof (cases "0 < i \<and> i mod 4 = 0")
  case True
  then have "4 dvd i" by (simp add: dvd_eq_mod_eq_0)
  then obtain j where j: "i = 4 * j" by (rule dvdE)
  with True obtain k where k: "j = Suc k" by (cases j) auto
  have a: "(i - 1) div 4 = k" using j k by simp
  have b: "i div 4 = Suc k" using j k by simp
  have "(int (k mod 6) + 1) mod 6 = int (Suc k mod 6)"
    by (simp add: zmod_int mod_simps add.commute)
  with True a b show ?thesis by simp
next
  case False
  have "(i - 1) div 4 = i div 4"
  proof (cases i)
    case 0
    then show ?thesis by simp
  next
    case (Suc n)
    with False have "Suc n mod 4 \<noteq> 0" by simp
    then show ?thesis using Suc by (simp add: div_Suc)
  qed
  with False show ?thesis by auto
qed

lemma melodic_loop_eq:
  "scale self \<noteq> [] \<Longrightarrow> cur = int (((i - 1) div 4) mod 6) \<Longrightarrow>
     melodic_loop self i cur ds acc =
       Inr (acc @ map (\<lambda>(j, d). melodic_note self j d) (zip [i ..< i + length ds] ds))"
proof (induction ds arbitrary: i cur acc)
  case Nil
  then show ?case by simp
next
  case (Cons d ds)
  let ?cur' = "(if 0 < i \<and> i mod 4 = 0 then (cur + 1) mod 6 else cur)"
  have c: "?cur' = int ((i div 4) mod 6)"
    unfolding Cons.prems(2) by (rule string_step)
  have u: "[i ..< i + length (d # ds)] = i # [Suc i ..< Suc i + length ds]"
    by (simp add: upt_rec)
  have "melodic_loop self i cur (d # ds) acc =
          melodic_loop self (Suc i) ?cur' ds (acc @ [melodic_note self i d])"
    using Cons.prems(1) c by (simp add: Let_def melodic_note_def)
  also have "\<dots> = Inr ((acc @ [melodic_note self i d]) @
      map (\<lambda>(j, d). melodic_note self j d) (zip [Suc i ..< Suc i + length ds] ds))"
    by (rule Cons.IH [OF Cons.prems(1)]) (simp add: c)
  finally show ?case unfolding u by simp
qed

lemma melodic_loop_empty_scale:
  "scale self = [] \<Longrightarrow> ds \<noteq> [] \<Longrightarrow> melodic_loop self i cur ds acc = Inl ZeroDivisionError"
  by (cases ds) simp_all

lemma length_melodic_notes [simp]: "length (melodic_notes self ds) = length ds"
  by (simp add: melodic_notes_def)

lemma nth_melodic_notes:
  "i < length ds \<Longrightarrow> melodic_notes self ds ! i = melodic_note self i (ds ! i)"
  by (simp add: melodic_notes_def)

lemma barcode_to_notes_Inr:
  assumes "fst (barcode_to_notes self b out) = Inr notes"
  shows "\<exists>ds. digits b = Inr ds \<and> notes = melodic_notes self ds"
proof (cases "digits b")
  case (Inl e)
  with assms show ?thesis by (simp add: barcode_to_notes_def)
next
  case (Inr ds)
  show ?thesis
  proof (cases "ds = []")
    case True
    with Inr assms show ?thesis by (simp add: barcode_to_notes_def melodic_notes_def)
  next
    case False
    with Inr assms have m: "melodic_loop self 0 0 ds [] = Inr notes"
      by (simp add: barcode_to_notes_def)
    have "scale self \<noteq> []"
    proof
      assume "scale self = []"
      from melodic_loop_empty_scale [OF this False, where i = 0 and cur = 0 and acc = "[]"] m show False by simp
    qed
    from melodic_loop_eq [OF this, where i = 0 and cur = 0 and ds = ds and acc = "[]"] m
    have "notes = melodic_notes self ds" by (simp add: melodic_notes_def)
    with Inr show ?thesis by simp
  qed
qed

lemma barcode_to_notes_total:
  assumes "scale self \<noteq> []" and "\<forall>c \<in> set b. isdigit c \<longrightarrow> isdecimal c"
  shows "fst (barcode_to_notes self b out) =
           Inr (melodic_notes self (map digit_value (filter isdecimal b)))"
proof -
  let ?ds = "map digit_value (filter isdecimal b)"
  have d: "digits b = Inr ?ds" by (rule digits_total [OF assms(2)])
  show ?thesis
  proof (cases "?ds = []")
    case True
    with d show ?thesis by (simp add: barcode_to_notes_def melodic_notes_def)
  next
    case False
    from melodic_loop_eq [OF assms(1), where i = 0 and cur = 0 and ds = ?ds and acc = "[]"]
    have "melodic_loop self 0 0 ?ds [] = Inr (melodic_notes self ?ds)"
      by (simp add: melodic_notes_def)
    with d False show ?thesis by (simp add: barcode_to_notes_def)
  qed
qed

lemma power_loop_eq: "power_loop ds acc = acc @ concat (map power_chord ds)"
  by (induction ds arbitrary: acc) (simp_all add: Let_def power_chord_def)

lemma generate_power_chord_riff_Inr:
  assumes "generate_power_chord_riff self b = Inr notes"
  shows "\<exists>ds. digits b = Inr ds \<and> notes = concat (map power_chord ds)"
proof (cases "digits b")
  case (Inl e)
  with assms show ?thesis by (simp add: generate_power_chord_riff_def)
next
  case (Inr ds)
  with assms show ?thesis
    by (cases "ds = []") (simp_all add: generate_power_chord_riff_def power_loop_eq)
qed

lemma generate_power_chord_riff_total:
  assumes "\<forall>c \<in> set b. isdigit c \<longrightarrow> isdecimal c"
  shows "generate_power_chord_riff self b =
           Inr (concat (map power_chord (map digit_value (filter isdecimal b))))"
proof -
  let ?ds = "map digit_value (filter isdecimal b)"
  have d: "digits b = Inr ?ds" by (rule digits_total [OF assms])
  show ?thesis
    by (cases "?ds = []") (simp_all add: d generate_power_chord_riff_def power_loop_eq)
qed

lemma SCALES_nonempty: "SCALES m \<noteq> []"
  by (cases m) simp_all

lemma SCALES_nonneg: "x \<in> set (SCALES m) \<Longrightarrow> 0 \<le> x"
  by (cases m) auto

lemma melodic_note_fields:
  "string (melodic_note self i d) = int ((i div 4) mod 6)"
  "fret (melodic_note self i d) =
     normalize_fret (root_fret self + scale self ! nat (d mod int (length (scale self))))"
  "duration (melodic_note self i d) = (if d = 0 \<or> d = 5 then 2 else 1)"
  by (simp_all add: melodic_note_def)

lemma in_melodic_notes:
  "n \<in> set (melodic_notes self ds) \<Longrightarrow> \<exists>i < length ds. n = melodic_note self i (ds ! i)"
  by (metis in_set_conv_nth length_melodic_notes nth_melodic_notes)

lemmas eval_defs =
  barcode_to_notes_def generate_power_chord_riff_def default_converter_def
  BarcodeToTab_init_def isdigit_def py_int_def Let_def normalize_fret.simps

lemmas render_defs =
  notes_to_tab_def tab_grid_def total_length_def py_index_def py_str_def
  int_max_str_digits_def str_nat.simps tuning_labels_def convert_def Let_def

lemma melodic_fret_bound:
  assumes "fst (barcode_to_notes self b out) = Inr notes" "n \<in> set notes"
  shows "fret n \<le> 19"
proof -
  from barcode_to_notes_Inr [OF assms(1)] obtain ds where "notes = melodic_notes self ds"
    by blast
  with assms(2) in_melodic_notes obtain i where "n = melodic_note self i (ds ! i)"
    by blast
  then show ?thesis by (simp add: melodic_note_fields normalize_fret_le)
qed

lemma melodic_string_nth:
  assumes "fst (barcode_to_notes self b out) = Inr notes" "i < length notes"
  shows "string (notes ! i) = int ((i div 4) mod 6)"
proof -
  from barcode_to_notes_Inr [OF assms(1)] obtain ds where "notes = melodic_notes self ds"
    by blast
  with assms(2) show ?thesis by (simp add: nth_melodic_notes melodic_note_fields)
qed

lemma of_char_48: "(of_char c = (48::nat)) = (c = CHR ''0'')"
proof -
  have "of_char (CHR ''0'') = (48::nat)" by simp
  then have "(of_char c = (48::nat)) = (of_char c = (of_char (CHR ''0'') :: nat))" by simp
  also have "\<dots> = (c = CHR ''0'')" by (rule of_char_eq_iff)
  finally show ?thesis .
qed

lemma of_char_53: "(of_char c = (53::nat)) = (c = CHR ''5'')"
proof -
  have "of_char (CHR ''5'') = (53::nat)" by simp
  then have "(of_char c = (53::nat)) = (of_char c = (of_char (CHR ''5'') :: nat))" by simp
  also have "\<dots> = (c = CHR ''5'')" by (rule of_char_eq_iff)
  finally show ?thesis .
qed

lemma digit_value_eq_0: "(digit_value c = 0) = (c = CHR ''0'')"
  using of_char_48 [of c] by (simp add: digit_value_def)

lemma digit_value_eq_5: "(digit_value c = 5) = (c = CHR ''5'')"
  using of_char_53 [of c] by (simp add: digit_value_def)

lemma melodic_note_string_range:
  "0 \<le> string (melodic_note self i d) \<and> string (melodic_note self i d) \<le> 5"
proof -
  have "(i div 4) mod 6 < 6" by simp
  then have "int ((i div 4) mod 6) \<le> 5" by linarith
  then show ?thesis by (simp add: melodic_note_fields)
qed

lemma melodic_note_duration:
  "duration (melodic_note self i d) = 1 \<or> duration (melodic_note self i d) = 2"
  by (simp add: melodic_note_fields)

lemma melodic_note_fret_nonneg:
  assumes "0 \<le> rf"
  shows "0 \<le> fret (melodic_note (BarcodeToTab_init rn rf m) i d)"
proof -
  let ?len = "length (SCALES m)"
  have pos: "0 < int ?len" using SCALES_nonempty [of m] by simp
  then have "d mod int ?len < int ?len" by (rule pos_mod_bound)
  moreover have "0 \<le> d mod int ?len" using pos by (rule pos_mod_sign)
  ultimately have "nat (d mod int ?len) < ?len" by linarith
  then have "SCALES m ! nat (d mod int ?len) \<in> set (SCALES m)" by (rule nth_mem)
  then have "0 \<le> SCALES m ! nat (d mod int ?len)" by (rule SCALES_nonneg)
  with assms have "0 \<le> rf + SCALES m ! nat (d mod int ?len)" by simp
  then have "0 \<le> normalize_fret (rf + SCALES m ! nat (d mod int ?len))"
    by (rule normalize_fret_nonneg)
  then show ?thesis by (simp add: melodic_note_fields BarcodeToTab_init_def)
qed

lemma power_chord_note:
  assumes "n \<in> set (power_chord d)" "0 \<le> d" "d \<le> 9"
  shows "0 \<le> string n \<and> string n \<le> 5 \<and> (duration n = 1 \<or> duration n = 2) \<and>
         0 \<le> fret n \<and> fret n \<le> 14"
proof -
  from assms(2,3) have "d mod 13 = d" by simp
  with assms show ?thesis by (auto simp: power_chord_def split: if_splits)
qed

subsection \<open>The decimal text of an integer\<close>

lemma length_str_nat_le: "n < 10 ^ k \<Longrightarrow> 0 < k \<Longrightarrow> length (str_nat n) \<le> k"
proof (induction k arbitrary: n)
  case 0
  then show ?case by simp
next
  case (Suc k)
  show ?case
  proof (cases "n < 10")
    case True
    then show ?thesis by (simp add: str_nat.simps [of n])
  next
    case False
    have k: "0 < k"
    proof (rule ccontr)
      assume "\<not> 0 < k"
      with Suc.prems(1) False show False by simp
    qed
    from Suc.prems(1) have "n div 10 < 10 ^ k" by (simp add: less_mult_imp_div_less mult.commute)
    from Suc.IH [OF this k] False show ?thesis by (simp add: str_nat.simps [of n])
  qed
qed

lemma length_str_nat_gt: "10 ^ k \<le> n \<Longrightarrow> k < length (str_nat n)"
proof (induction k arbitrary: n)
  case 0
  show ?case by (cases "n < 10") (simp_all add: str_nat.simps [of n])
next
  case (Suc k)
  have one: "(1::nat) \<le> 10 ^ k" by simp
  from Suc.prems have ten: "10 * 10 ^ k \<le> n" by simp
  from one ten have n: "\<not> n < 10" by linarith
  from Suc.prems have "10 ^ k \<le> n div 10" by (simp add: less_eq_div_iff_mult_less_eq mult.commute)
  from Suc.IH [OF this] n show ?case by (simp add: str_nat.simps [of n])
qed

lemma int_max_str_digits_pos: "0 < int_max_str_digits"
  by (simp add: int_max_str_digits_def)

lemma nat_abs_less_power: "\<bar>n\<bar> < 10 ^ k \<Longrightarrow> nat \<bar>n\<bar> < 10 ^ k"
proof -
  assume "\<bar>n\<bar> < 10 ^ k"
  then have "int (nat \<bar>n\<bar>) < int (10 ^ k)" by simp
  then show ?thesis by (simp only: of_nat_less_iff)
qed

lemma power_le_nat_abs: "10 ^ k \<le> \<bar>n\<bar> \<Longrightarrow> 10 ^ k \<le> nat \<bar>n\<bar>"
proof -
  assume "10 ^ k \<le> \<bar>n\<bar>"
  then have "int (10 ^ k) \<le> int (nat \<bar>n\<bar>)" by simp
  then show ?thesis by (simp only: of_nat_le_iff)
qed

text \<open>\<open>str\<close> returns the decimal text below the limit and raises from the limit on.\<close>

lemma py_str_Inr:
  assumes "\<bar>n\<bar> < 10 ^ int_max_str_digits"
  shows "py_str n = Inr (decimal_text n)"
proof -
  have "length (str_nat (nat \<bar>n\<bar>)) \<le> int_max_str_digits"
    by (rule length_str_nat_le [OF nat_abs_less_power [OF assms] int_max_str_digits_pos])
  moreover have "n < 0 \<Longrightarrow> nat \<bar>n\<bar> = nat (- n)" by simp
  moreover have "\<not> n < 0 \<Longrightarrow> nat \<bar>n\<bar> = nat n" by simp
  ultimately show ?thesis by (simp add: py_str_def decimal_text_def Let_def)
qed

lemma py_str_Inl:
  assumes "10 ^ int_max_str_digits \<le> \<bar>n\<bar>"
  shows "py_str n = Inl ValueError"
proof -
  have "int_max_str_digits < length (str_nat (nat \<bar>n\<bar>))"
    by (rule length_str_nat_gt [OF power_le_nat_abs [OF assms]])
  then show ?thesis by (simp add: py_str_def Let_def)
qed

lemma small_fret: "\<bar>n\<bar> < 100000 \<Longrightarrow> \<bar>n\<bar> < (10::int) ^ int_max_str_digits"
proof -
  assume a: "\<bar>n\<bar> < 100000"
  have "5 \<le> int_max_str_digits" by (simp add: int_max_str_digits_def)
  then have "(10::int) ^ 5 \<le> 10 ^ int_max_str_digits" by (rule power_increasing) simp
  moreover have "(10::int) ^ 5 = 100000" by simp
  ultimately show ?thesis using a by linarith
qed

subsection \<open>The renderer's loops\<close>

lemma shape_nth:
  "map length tab = replicate 6 w \<Longrightarrow> r < 6 \<Longrightarrow> length (tab ! r) = w"
proof -
  assume a: "map length tab = replicate 6 w" and r: "r < 6"
  from a have l: "length tab = 6" by (metis length_map length_replicate)
  with r have "length (tab ! r) = map length tab ! r" by simp
  also have "\<dots> = w" using a r by simp
  finally show ?thesis .
qed

lemma shape_length: "map length tab = replicate 6 w \<Longrightarrow> length tab = 6"
  by (metis length_map length_replicate)

lemma shape_update:
  assumes "map length tab = replicate 6 w" "r < 6"
  shows "map length (tab[r := (tab ! r)[c := ch]]) = replicate 6 w"
proof -
  have "map length (tab[r := (tab ! r)[c := ch]]) = (map length tab)[r := length (tab ! r)]"
    by (simp add: map_update)
  also have "\<dots> = map length tab"
    using shape_length [OF assms(1)] assms(2) by (simp add: list_update_same_conv)
  finally show ?thesis using assms(1) by simp
qed

lemma place_fret_ok:
  assumes "map length tab = replicate 6 (nat wd)" "0 \<le> si" "si \<le> 5" "0 \<le> pos + ci"
  shows "\<exists>tab'. place_fret wd si pos ci fs tab = Inr tab' \<and>
           map length tab' = replicate 6 (nat wd) \<and>
           (\<forall>r < 6. \<forall>c < nat wd. tab' ! r ! c =
              (if int r = si \<and> pos + ci \<le> int c \<and> int c < pos + ci + int (length fs)
               then fs ! nat (int c - pos - ci) else tab ! r ! c))"
  using assms
proof (induction fs arbitrary: ci tab)
  case Nil
  then show ?case by simp
next
  case (Cons ch rest)
  have len: "length tab = 6" by (rule shape_length [OF Cons.prems(1)])
  show ?case
  proof (cases "pos + ci < wd")
    case False
    from Cons.IH [OF Cons.prems(1,2,3), of "ci + 1"] Cons.prems(4)
    obtain tab' where t: "place_fret wd si pos (ci + 1) rest tab = Inr tab'"
      "map length tab' = replicate 6 (nat wd)"
      "\<forall>r < 6. \<forall>c < nat wd. tab' ! r ! c =
          (if int r = si \<and> pos + (ci + 1) \<le> int c \<and> int c < pos + (ci + 1) + int (length rest)
           then rest ! nat (int c - pos - (ci + 1)) else tab ! r ! c)"
      by auto
    have "\<forall>r < 6. \<forall>c < nat wd. tab' ! r ! c = tab ! r ! c"
      using t(3) False by auto
    moreover have "\<forall>c < nat wd. \<not> pos + ci \<le> int c" using False by auto
    ultimately show ?thesis using t(1,2) False by simp
  next
    case True
    let ?r = "nat si" and ?c = "nat (pos + ci)"
    let ?tab1 = "tab[?r := (tab ! ?r)[?c := ch]]"
    have r6: "?r < 6" using Cons.prems(2,3) by simp
    have rowlen: "length (tab ! ?r) = nat wd" by (rule shape_nth [OF Cons.prems(1) r6])
    have c: "?c < nat wd" using True Cons.prems(4) by simp
    have i1: "py_index (length tab) si = Inr ?r"
      using len Cons.prems(2,3) by (simp add: py_index_def)
    have i2: "py_index (length (tab ! ?r)) (pos + ci) = Inr ?c"
      using rowlen True Cons.prems(4) by (simp add: py_index_def)
    have step: "place_fret wd si pos ci (ch # rest) tab = place_fret wd si pos (ci + 1) rest ?tab1"
      using True i1 i2 by simp
    have s1: "map length ?tab1 = replicate 6 (nat wd)"
      by (rule shape_update [OF Cons.prems(1) r6])
    from Cons.IH [OF s1 Cons.prems(2,3), of "ci + 1"] Cons.prems(4)
    obtain tab' where t: "place_fret wd si pos (ci + 1) rest ?tab1 = Inr tab'"
      "map length tab' = replicate 6 (nat wd)"
      "\<forall>r < 6. \<forall>c < nat wd. tab' ! r ! c =
          (if int r = si \<and> pos + (ci + 1) \<le> int c \<and> int c < pos + (ci + 1) + int (length rest)
           then rest ! nat (int c - pos - (ci + 1)) else ?tab1 ! r ! c)"
      by auto
    have cell1: "?tab1 ! r ! k = (if r = ?r \<and> k = ?c then ch else tab ! r ! k)"
      if "r < 6" "k < nat wd" for r k
    proof (cases "r = ?r")
      case True
      then have "?tab1 ! r = (tab ! ?r)[?c := ch]" using len r6 by simp
      with True that(2) rowlen c show ?thesis by (simp add: nth_list_update)
    next
      case False
      then have "?tab1 ! r = tab ! r" by simp
      with False show ?thesis by simp
    qed
    have "tab' ! r ! k =
            (if int r = si \<and> pos + ci \<le> int k \<and> int k < pos + ci + int (length (ch # rest))
             then (ch # rest) ! nat (int k - pos - ci) else tab ! r ! k)"
      if rk: "r < 6" "k < nat wd" for r k
    proof -
      have inst: "tab' ! r ! k =
          (if int r = si \<and> pos + (ci + 1) \<le> int k \<and> int k < pos + (ci + 1) + int (length rest)
           then rest ! nat (int k - pos - (ci + 1)) else ?tab1 ! r ! k)"
        using t(3) rk by blast
      show ?thesis
      proof (cases "int r = si \<and> int k = pos + ci")
        case True
        then have "r = ?r" "k = ?c" by auto
        with inst cell1 [OF rk] True show ?thesis by simp
      next
        case False
        then have ne: "\<not> (r = ?r \<and> k = ?c)" using Cons.prems(2,4) by auto
        show ?thesis
        proof (cases "int r = si \<and> pos + (ci + 1) \<le> int k \<and>
                      int k < pos + (ci + 1) + int (length rest)")
          case True
          then have "nat (int k - pos - ci) = Suc (nat (int k - pos - (ci + 1)))" by auto
          with True inst show ?thesis by simp
        next
          case f2: False
          with inst have "tab' ! r ! k = ?tab1 ! r ! k" by simp
          also have "\<dots> = tab ! r ! k" using cell1 [OF rk] ne by simp
          finally show ?thesis using False f2 by auto
        qed
      qed
    qed
    with step t(1,2) show ?thesis by simp
  qed
qed

lemma place_notes_ok:
  assumes "map length tab = replicate 6 (nat wd)" "0 \<le> pos" "\<forall>n \<in> set ns. valid_note n"
  shows "\<exists>tab'. place_notes wd pos ns tab = Inr tab' \<and>
           map length tab' = replicate 6 (nat wd) \<and>
           (\<forall>r < 6. \<forall>c < nat wd. tab' ! r ! c = tab_cell wd pos ns r c (tab ! r ! c))"
  using assms
proof (induction ns arbitrary: pos tab)
  case Nil
  then show ?case by simp
next
  case (Cons n ns)
  let ?fs = "decimal_text (fret n)"
  from Cons.prems(3) have v: "0 \<le> 5 - string n" "5 - string n \<le> 5" "0 \<le> duration n"
    and f: "\<bar>fret n\<bar> < 10 ^ int_max_str_digits"
    by (simp_all add: valid_note_def)
  have fs: "py_str (fret n) = Inr ?fs" by (rule py_str_Inr [OF f])
  from place_fret_ok [OF Cons.prems(1) v(1,2), of pos 0 ?fs] Cons.prems(2)
  obtain tab1 where t1: "place_fret wd (5 - string n) pos 0 ?fs tab = Inr tab1"
    "map length tab1 = replicate 6 (nat wd)"
    "\<forall>r < 6. \<forall>c < nat wd. tab1 ! r ! c =
        (if int r = 5 - string n \<and> pos + 0 \<le> int c \<and> int c < pos + 0 + int (length ?fs)
         then ?fs ! nat (int c - pos - 0) else tab ! r ! c)"
    by auto
  have p: "0 \<le> pos + duration n * 2" using Cons.prems(2) v(3) by simp
  have vs: "\<forall>n \<in> set ns. valid_note n" using Cons.prems(3) by simp
  from Cons.IH [OF t1(2) p vs]
  obtain tab' where t2: "place_notes wd (pos + duration n * 2) ns tab1 = Inr tab'"
    "map length tab' = replicate 6 (nat wd)"
    "\<forall>r < 6. \<forall>c < nat wd. tab' ! r ! c =
        tab_cell wd (pos + duration n * 2) ns r c (tab1 ! r ! c)"
    by auto
  have "tab' ! r ! c = tab_cell wd pos (n # ns) r c (tab ! r ! c)"
    if rc: "r < 6" "c < nat wd" for r c
  proof -
    have a: "tab' ! r ! c = tab_cell wd (pos + duration n * 2) ns r c (tab1 ! r ! c)"
      using t2(3) rc by blast
    have b: "tab1 ! r ! c =
        (if int r = 5 - string n \<and> pos + 0 \<le> int c \<and> int c < pos + 0 + int (length ?fs)
         then ?fs ! nat (int c - pos - 0) else tab ! r ! c)"
      using t1(3) rc by blast
    have w: "int c < wd" using rc(2) by simp
    show ?thesis unfolding a b using w by simp
  qed
  with fs t1(1) t2(1,2) show ?case by simp
qed

lemma notes_to_tab_ok:
  assumes "\<forall>n \<in> set notes. valid_note n"
  shows "\<exists>text. notes_to_tab self notes title = Inr text"
proof (cases "notes = []")
  case True
  then show ?thesis by (simp add: notes_to_tab_def)
next
  case False
  let ?wd = "total_length notes"
  have "map length (replicate 6 (replicate (nat ?wd) CHR ''-'')) = replicate 6 (nat ?wd)"
    by simp
  from place_notes_ok [OF this _ assms, of 1]
  obtain tab where "tab_grid notes = Inr tab" by (auto simp: tab_grid_def)
  with False show ?thesis by (simp add: notes_to_tab_def)
qed

lemma melodic_notes_valid:
  assumes "0 \<le> rf" "n \<in> set (melodic_notes (BarcodeToTab_init rn rf m) ds)"
  shows "valid_note n"
proof -
  let ?self = "BarcodeToTab_init rn rf m"
  from assms(2) in_melodic_notes obtain i where i: "n = melodic_note ?self i (ds ! i)"
    by blast
  have "0 \<le> fret n" unfolding i using assms(1) by (rule melodic_note_fret_nonneg)
  moreover have "fret n \<le> 19" unfolding i by (simp add: melodic_note_fields normalize_fret_le)
  ultimately have "\<bar>fret n\<bar> < 100000" by simp
  then have "\<bar>fret n\<bar> < 10 ^ int_max_str_digits" by (rule small_fret)
  moreover have "0 \<le> string n \<and> string n \<le> 5" unfolding i
    by (rule melodic_note_string_range)
  moreover have "1 \<le> duration n" unfolding i by (simp add: melodic_note_fields)
  ultimately show ?thesis by (simp add: valid_note_def)
qed

lemma power_chord_valid:
  assumes "n \<in> set (concat (map power_chord ds))"
  shows "valid_note n"
proof -
  from assms obtain d where d: "n \<in> set (power_chord d)" by auto
  have "0 \<le> d mod 13" "d mod 13 < 13" by simp_all
  with d have r: "0 \<le> string n \<and> string n \<le> 5 \<and> 1 \<le> duration n \<and> \<bar>fret n\<bar> < 100000"
    by (auto simp: power_chord_def split: if_splits)
  then have "\<bar>fret n\<bar> < 10 ^ int_max_str_digits" using small_fret by blast
  with r show ?thesis by (simp add: valid_note_def)
qed

lemma length_power_chord: "2 \<le> length (power_chord d) \<and> length (power_chord d) \<le> 4"
  by (simp add: power_chord_def)

lemma length_concat_power_chord:
  "2 * length ds \<le> length (concat (map power_chord ds)) \<and>
   length (concat (map power_chord ds)) \<le> 4 * length ds"
proof (induction ds)
  case Nil
  then show ?case by simp
next
  case (Cons d ds)
  with length_power_chord [of d] show ?case by simp
qed

section \<open>The melodic generator\<close>

text \<open>
  Claim C1. For every input string the melodic generator produces one note per
  decimal-digit character, in the order of the digits, and an input with no digit gives
  the empty list and no error. The code does not do this on every string:
  \<open>str.isdigit\<close> also accepts the superscript digits, which
  \<open>int\<close> rejects, so on the one-character barcode U+00B2 (superscript two), which has
  no decimal digit, \<open>barcode_to_notes\<close> raises \<open>ValueError\<close> instead of returning the
  empty list.
\<close>

theorem barcode_to_notes_superscript_raises:
  "barcode_to_notes default_converter [CHR 0xB2] [] = (Inl ValueError, [])"
  by (simp add: eval_defs)

text \<open>
  On a barcode in which every character that \<open>isdigit\<close> accepts is a decimal digit, the
  generator returns one note per decimal digit, the note at index \<open>i\<close> being the one of
  the \<open>i\<close>-th digit.
\<close>

theorem melodic_one_note_per_digit:
  assumes "\<forall>c \<in> set b. isdigit c \<longrightarrow> isdecimal c"
  shows "\<exists>notes. fst (barcode_to_notes (BarcodeToTab_init rn rf m) b out) = Inr notes \<and>
           length notes = length (filter isdecimal b) \<and>
           (\<forall>i < length notes.
              notes ! i =
                melodic_note (BarcodeToTab_init rn rf m) i (digit_value (filter isdecimal b ! i)))"
proof -
  let ?self = "BarcodeToTab_init rn rf m"
  let ?ds = "map digit_value (filter isdecimal b)"
  have s: "scale ?self \<noteq> []" using SCALES_nonempty [of m] by (simp add: BarcodeToTab_init_def)
  have e: "fst (barcode_to_notes ?self b out) = Inr (melodic_notes ?self ?ds)"
    by (rule barcode_to_notes_total [OF s assms])
  have "melodic_notes ?self ?ds ! i = melodic_note ?self i (digit_value (filter isdecimal b ! i))"
    if "i < length (melodic_notes ?self ?ds)" for i
    using that by (simp add: nth_melodic_notes)
  with e show ?thesis by simp
qed

theorem melodic_one_note_per_digit_witness:
  "fst (barcode_to_notes (BarcodeToTab_init ''E'' 0 MINOR_PENTATONIC) ''a5-1'' []) =
     Inr [\<lparr>string = 0, fret = 0, duration = 2\<rparr>, \<lparr>string = 0, fret = 3, duration = 1\<rparr>] \<and>
   filter isdecimal ''a5-1'' = ''51'' \<and>
   length [\<lparr>string = 0, fret = 0, duration = 2\<rparr>, \<lparr>string = 0, fret = 3, duration = 1\<rparr>] =
     length ''51''"
proof -
  let ?ns = "[\<lparr>string = 0, fret = 0, duration = 2\<rparr>, \<lparr>string = 0, fret = 3, duration = 1\<rparr>]"
  have a: "\<forall>c \<in> set ''a5-1''. isdigit c \<longrightarrow> isdecimal c"
    by (simp add: isdigit_def isdecimal_def)
  have f: "filter isdecimal ''a5-1'' = ''51''" by (simp add: isdecimal_def)
  have e: "fst (barcode_to_notes (BarcodeToTab_init ''E'' 0 MINOR_PENTATONIC) ''a5-1'' []) = Inr ?ns"
    by (simp add: eval_defs)
  from melodic_one_note_per_digit [OF a, of "''E''" 0 MINOR_PENTATONIC "[]"] e
  have "length ?ns = length (filter isdecimal ''a5-1'')" by auto
  with e f show ?thesis by simp
qed

text \<open>
  Claim C3. For every root fret from 0 to 12, every scale mode of the table and every
  digit, the fret of each melodic note after the loop
  \<open>while fret > 19: fret -= 12\<close> is at most 19.
\<close>

theorem melodic_fret_le_19:
  assumes "0 \<le> rf" "rf \<le> 12"
    and "fst (barcode_to_notes (BarcodeToTab_init rn rf m) b out) = Inr notes"
    and "n \<in> set notes"
  shows "fret n \<le> 19"
  using assms(3,4) by (rule melodic_fret_bound)

theorem melodic_fret_le_19_witness:
  "(0::int) \<le> 12 \<and> (12::int) \<le> 12 \<and>
   fst (barcode_to_notes (BarcodeToTab_init ''E'' 12 CHROMATIC) ''9'' []) =
     Inr [\<lparr>string = 0, fret = 9, duration = 1\<rparr>] \<and>
   \<lparr>string = 0, fret = 9, duration = 1\<rparr> \<in> set [\<lparr>string = 0, fret = 9, duration = 1\<rparr>] \<and>
   fret \<lparr>string = 0, fret = 9, duration = 1\<rparr> \<le> 19"
proof -
  have e: "fst (barcode_to_notes (BarcodeToTab_init ''E'' 12 CHROMATIC) ''9'' []) =
     Inr [\<lparr>string = 0, fret = 9, duration = 1\<rparr>]"
    by (simp add: eval_defs)
  have "fret \<lparr>string = 0, fret = 9, duration = 1\<rparr> \<le> 19"
    by (rule melodic_fret_le_19 [OF _ _ e]) simp_all
  with e show ?thesis by simp
qed

text \<open>
  Claim C4, as amended. The claim says that for some root fret above 12 a melodic note
  keeps a fret above 19 after the normalisation loop. The loop ends only when
  \<open>fret \<le> 19\<close>, so this never happens: for every root fret above 12 too, every note the
  melodic generator returns has a fret of at most 19.
\<close>

theorem large_root_fret_clamped:
  assumes "12 < root_fret self"
    and "fst (barcode_to_notes self b out) = Inr notes"
    and "n \<in> set notes"
  shows "fret n \<le> 19"
  using assms(2,3) by (rule melodic_fret_bound)

theorem large_root_fret_clamped_witness:
  "(12::int) < root_fret (BarcodeToTab_init ''E'' 20 MINOR_PENTATONIC) \<and>
   fst (barcode_to_notes (BarcodeToTab_init ''E'' 20 MINOR_PENTATONIC) ''4'' []) =
     Inr [\<lparr>string = 0, fret = 18, duration = 1\<rparr>] \<and>
   fret \<lparr>string = 0, fret = 18, duration = 1\<rparr> \<le> 19"
proof -
  have r: "(12::int) < root_fret (BarcodeToTab_init ''E'' 20 MINOR_PENTATONIC)"
    by (simp add: BarcodeToTab_init_def)
  have e: "fst (barcode_to_notes (BarcodeToTab_init ''E'' 20 MINOR_PENTATONIC) ''4'' []) =
     Inr [\<lparr>string = 0, fret = 18, duration = 1\<rparr>]"
    by (simp add: eval_defs)
  have "fret \<lparr>string = 0, fret = 18, duration = 1\<rparr> \<le> 19"
    by (rule large_root_fret_clamped [OF r e]) simp
  with r e show ?thesis by simp
qed

text \<open>
  Claim C4 as stated is false: no converter with a root fret above 12, no barcode and
  no note of the result has a fret above 19.
\<close>

theorem large_root_fret_counterexample:
  "\<not> (\<exists>self b out notes n.
        12 < root_fret self \<and> fst (barcode_to_notes self b out) = Inr notes \<and>
        n \<in> set notes \<and> 19 < fret n)"
proof
  assume "\<exists>self b out notes n.
        12 < root_fret self \<and> fst (barcode_to_notes self b out) = Inr notes \<and>
        n \<in> set notes \<and> 19 < fret n"
  then obtain self b out ns n where
    "fst (barcode_to_notes self b out) = Inr ns" "n \<in> set ns" "19 < fret n"
    by blast
  with melodic_fret_bound [of self b out ns n] show False by simp
qed

text \<open>
  Claim C5. In the melodic generator the notes at indices 0 to 3 are on string 0; the
  string of a later note is the string of the note before it, plus one modulo 6 exactly
  when the index is a multiple of 4; in particular the note at index 4 is one string
  (modulo 6) above each of the notes at indices 0 to 3.
\<close>

theorem string_change_rule:
  assumes "fst (barcode_to_notes self b out) = Inr notes"
  shows "(\<forall>i < length notes. i \<le> 3 \<longrightarrow> string (notes ! i) = 0) \<and>
         (\<forall>i < length notes. 0 < i \<longrightarrow>
            string (notes ! i) =
              (if i mod 4 = 0 then (string (notes ! (i - 1)) + 1) mod 6
               else string (notes ! (i - 1)))) \<and>
         (4 < length notes \<longrightarrow>
            (\<forall>j \<le> 3. string (notes ! 4) = (string (notes ! j) + 1) mod 6))"
proof (intro conjI allI impI)
  fix i assume "i < length notes" "i \<le> 3"
  then show "string (notes ! i) = 0"
    using melodic_string_nth [OF assms, of i] by simp
next
  fix i assume i: "i < length notes" "0 < i"
  then have p: "i - 1 < length notes" by simp
  have a: "string (notes ! i) = int ((i div 4) mod 6)"
    by (rule melodic_string_nth [OF assms i(1)])
  have b: "string (notes ! (i - 1)) = int (((i - 1) div 4) mod 6)"
    by (rule melodic_string_nth [OF assms p])
  show "string (notes ! i) =
          (if i mod 4 = 0 then (string (notes ! (i - 1)) + 1) mod 6
           else string (notes ! (i - 1)))"
    unfolding a b using string_step [of i] i(2) by simp
next
  fix j :: nat assume l: "4 < length notes" and j: "j \<le> 3"
  have "string (notes ! 4) = 1" using melodic_string_nth [OF assms, of 4] l by simp
  moreover have "string (notes ! j) = 0" using melodic_string_nth [OF assms, of j] l j by simp
  ultimately show "string (notes ! 4) = (string (notes ! j) + 1) mod 6" by simp
qed

theorem string_change_rule_witness:
  "fst (barcode_to_notes default_converter ''012345678'' []) =
     Inr [\<lparr>string = 0, fret = 0, duration = 2\<rparr>, \<lparr>string = 0, fret = 3, duration = 1\<rparr>,
          \<lparr>string = 0, fret = 5, duration = 1\<rparr>, \<lparr>string = 0, fret = 7, duration = 1\<rparr>,
          \<lparr>string = 1, fret = 10, duration = 1\<rparr>, \<lparr>string = 1, fret = 0, duration = 2\<rparr>,
          \<lparr>string = 1, fret = 3, duration = 1\<rparr>, \<lparr>string = 1, fret = 5, duration = 1\<rparr>,
          \<lparr>string = 2, fret = 7, duration = 1\<rparr>] \<and>
   string \<lparr>string = 1, fret = 10, duration = 1\<rparr> =
     (string \<lparr>string = 0, fret = 7, duration = 1\<rparr> + 1) mod 6"
proof -
  let ?ns = "[\<lparr>string = 0, fret = 0, duration = 2\<rparr>, \<lparr>string = 0, fret = 3, duration = 1\<rparr>,
          \<lparr>string = 0, fret = 5, duration = 1\<rparr>, \<lparr>string = 0, fret = 7, duration = 1\<rparr>,
          \<lparr>string = 1, fret = 10, duration = 1\<rparr>, \<lparr>string = 1, fret = 0, duration = 2\<rparr>,
          \<lparr>string = 1, fret = 3, duration = 1\<rparr>, \<lparr>string = 1, fret = 5, duration = 1\<rparr>,
          \<lparr>string = 2, fret = 7, duration = 1\<rparr>]"
  have e: "fst (barcode_to_notes default_converter ''012345678'' []) = Inr ?ns"
    by (simp add: eval_defs)
  from string_change_rule [OF e]
  have "4 < length ?ns \<longrightarrow> (\<forall>j \<le> 3. string (?ns ! 4) = (string (?ns ! j) + 1) mod 6)"
    by blast
  then have "string (?ns ! 4) = (string (?ns ! 3) + 1) mod 6" by simp
  with e show ?thesis by simp
qed

text \<open>
  Claim C7. In the melodic generator a digit 0 or 5 gives a note of duration 2 and every
  other digit a note of duration 1; for the barcode \<open>012345678905\<close> and the default
  configuration (root fret 0, minor pentatonic) the first note is on string 0 at fret 0
  with duration 2.
\<close>

theorem duration_rule:
  assumes "fst (barcode_to_notes self b out) = Inr notes"
  shows "length notes = length (filter isdecimal b) \<and>
         (\<forall>i < length notes. duration (notes ! i) =
            (if filter isdecimal b ! i = CHR ''0'' \<or> filter isdecimal b ! i = CHR ''5''
             then 2 else 1)) \<and>
         (\<exists>rest. fst (barcode_to_notes default_converter ''012345678905'' out') =
            Inr (\<lparr>string = 0, fret = 0, duration = 2\<rparr> # rest))"
proof -
  let ?cs = "filter isdecimal b"
  from barcode_to_notes_Inr [OF assms] obtain ds where
    d: "digits b = Inr ds" and n: "notes = melodic_notes self ds" by blast
  from digits_Inr [OF d] have ds: "ds = map digit_value ?cs" by simp
  have l: "length notes = length ?cs" using n ds by simp
  have "duration (notes ! i) =
          (if ?cs ! i = CHR ''0'' \<or> ?cs ! i = CHR ''5'' then 2 else 1)"
    if "i < length notes" for i
  proof -
    from that l have i: "i < length ?cs" by simp
    then have "ds ! i = digit_value (?cs ! i)" using ds by simp
    moreover have "notes ! i = melodic_note self i (ds ! i)"
      using n i ds by (simp add: nth_melodic_notes)
    ultimately show ?thesis
      by (simp add: melodic_note_fields digit_value_eq_0 digit_value_eq_5)
  qed
  moreover have "\<exists>rest. fst (barcode_to_notes default_converter ''012345678905'' out') =
            Inr (\<lparr>string = 0, fret = 0, duration = 2\<rparr> # rest)"
    by (simp add: eval_defs)
  ultimately show ?thesis using l by blast
qed

theorem duration_rule_witness:
  "fst (barcode_to_notes default_converter ''a5-1'' []) =
     Inr [\<lparr>string = 0, fret = 0, duration = 2\<rparr>, \<lparr>string = 0, fret = 3, duration = 1\<rparr>] \<and>
   filter isdecimal ''a5-1'' = ''51'' \<and>
   duration \<lparr>string = 0, fret = 0, duration = 2\<rparr> = 2 \<and>
   duration \<lparr>string = 0, fret = 3, duration = 1\<rparr> = 1"
proof -
  let ?ns = "[\<lparr>string = 0, fret = 0, duration = 2\<rparr>, \<lparr>string = 0, fret = 3, duration = 1\<rparr>]"
  have e: "fst (barcode_to_notes default_converter ''a5-1'' []) = Inr ?ns"
    by (simp add: eval_defs)
  have f: "filter isdecimal ''a5-1'' = ''51''" by (simp add: isdecimal_def)
  from duration_rule [OF e]
  have "\<forall>i < length ?ns. duration (?ns ! i) =
            (if filter isdecimal ''a5-1'' ! i = CHR ''0'' \<or> filter isdecimal ''a5-1'' ! i = CHR ''5''
             then 2 else 1)"
    by blast
  then have "duration (?ns ! 0) = 2 \<and> duration (?ns ! 1) = 1" unfolding f by simp
  with e f show ?thesis by simp
qed

section \<open>The power-chord generator\<close>

text \<open>
  Claim C2. For every input string the power-chord generator emits, for each digit, a root
  note and a fifth, and a palm-mute pair after a 0 or a 5, hence between \<open>2n\<close> and \<open>4n\<close>
  notes for \<open>n\<close> digits. The code does not do this on every string: on the barcode made
  of \<open>1\<close> and U+00B2 (superscript two) the digit comprehension raises \<open>ValueError\<close>, and
  no note is returned for the digit 1.
\<close>

theorem power_chord_superscript_raises:
  "generate_power_chord_riff default_converter [CHR ''1'', CHR 0xB2] = Inl ValueError"
  by (simp add: eval_defs)

text \<open>
  On a barcode in which every character that \<open>isdigit\<close> accepts is a decimal digit, the
  generator returns the notes of \<open>power_chord\<close> for each digit in turn: the root and the
  fifth with duration 2, then, for 0 and 5, the same pair with duration 1. The barcode
  \<open>5\<close> gives the four notes (0,5,2), (1,7,2), (0,5,1), (1,7,1).
\<close>

theorem power_chord_riff_notes:
  assumes "\<forall>c \<in> set b. isdigit c \<longrightarrow> isdecimal c"
  shows "\<exists>notes. generate_power_chord_riff self b = Inr notes \<and>
           notes = concat (map (\<lambda>c. power_chord (digit_value c)) (filter isdecimal b)) \<and>
           2 * length (filter isdecimal b) \<le> length notes \<and>
           length notes \<le> 4 * length (filter isdecimal b)"
proof -
  let ?ds = "map digit_value (filter isdecimal b)"
  have e: "generate_power_chord_riff self b = Inr (concat (map power_chord ?ds))"
    by (rule generate_power_chord_riff_total [OF assms])
  have m: "map power_chord ?ds = map (\<lambda>c. power_chord (digit_value c)) (filter isdecimal b)"
    by (simp add: comp_def)
  have l: "2 * length (filter isdecimal b) \<le> length (concat (map power_chord ?ds)) \<and>
           length (concat (map power_chord ?ds)) \<le> 4 * length (filter isdecimal b)"
    using length_concat_power_chord [of ?ds] by simp
  show ?thesis unfolding e m [symmetric] using l by blast
qed

theorem power_chord_riff_notes_witness:
  "generate_power_chord_riff default_converter ''5'' =
     Inr [\<lparr>string = 0, fret = 5, duration = 2\<rparr>, \<lparr>string = 1, fret = 7, duration = 2\<rparr>,
          \<lparr>string = 0, fret = 5, duration = 1\<rparr>, \<lparr>string = 1, fret = 7, duration = 1\<rparr>] \<and>
   filter isdecimal ''5'' = ''5'' \<and>
   power_chord (digit_value CHR ''5'') =
     [\<lparr>string = 0, fret = 5, duration = 2\<rparr>, \<lparr>string = 1, fret = 7, duration = 2\<rparr>,
      \<lparr>string = 0, fret = 5, duration = 1\<rparr>, \<lparr>string = 1, fret = 7, duration = 1\<rparr>]"
proof -
  have a: "\<forall>c \<in> set ''5''. isdigit c \<longrightarrow> isdecimal c"
    by (simp add: isdigit_def isdecimal_def)
  have f: "filter isdecimal ''5'' = ''5''" by (simp add: isdecimal_def)
  have p: "power_chord (digit_value CHR ''5'') =
     [\<lparr>string = 0, fret = 5, duration = 2\<rparr>, \<lparr>string = 1, fret = 7, duration = 2\<rparr>,
      \<lparr>string = 0, fret = 5, duration = 1\<rparr>, \<lparr>string = 1, fret = 7, duration = 1\<rparr>]"
    by (simp add: power_chord_def digit_value_def)
  from power_chord_riff_notes [OF a, of default_converter]
  have "generate_power_chord_riff default_converter ''5'' =
          Inr (concat (map (\<lambda>c. power_chord (digit_value c)) (filter isdecimal ''5'')))"
    by auto
  with f p show ?thesis by simp
qed

section \<open>Both generators\<close>

text \<open>
  Claim C10. Every note either generator returns has a string index from 0 to 5 and a
  duration of 1 or 2. A melodic note of a converter built with a root fret of at least 0
  has a fret from 0 to 19, whatever the root fret; a power-chord note has a fret from 0
  to 14.
\<close>

theorem note_invariants:
  "(fst (barcode_to_notes (BarcodeToTab_init rn rf m) b out) = Inr notes \<longrightarrow>
      (\<forall>n \<in> set notes.
         0 \<le> string n \<and> string n \<le> 5 \<and> (duration n = 1 \<or> duration n = 2) \<and>
         (0 \<le> rf \<longrightarrow> 0 \<le> fret n \<and> fret n \<le> 19))) \<and>
   (generate_power_chord_riff self b' = Inr pnotes \<longrightarrow>
      (\<forall>n \<in> set pnotes.
         0 \<le> string n \<and> string n \<le> 5 \<and> (duration n = 1 \<or> duration n = 2) \<and>
         0 \<le> fret n \<and> fret n \<le> 14))"
proof (intro conjI impI ballI)
  fix n
  assume e: "fst (barcode_to_notes (BarcodeToTab_init rn rf m) b out) = Inr notes"
    and n: "n \<in> set notes"
  let ?self = "BarcodeToTab_init rn rf m"
  from barcode_to_notes_Inr [OF e] obtain ds where "notes = melodic_notes ?self ds" by blast
  with n in_melodic_notes obtain i where i: "n = melodic_note ?self i (ds ! i)" by blast
  show "0 \<le> string n" "string n \<le> 5" unfolding i using melodic_note_string_range by blast+
  show "duration n = 1 \<or> duration n = 2" unfolding i by (rule melodic_note_duration)
  show "fret n \<le> 19" by (rule melodic_fret_bound [OF e n])
  show "0 \<le> fret n" if "0 \<le> rf" unfolding i using that by (rule melodic_note_fret_nonneg)
next
  fix n
  assume e: "generate_power_chord_riff self b' = Inr pnotes" and n: "n \<in> set pnotes"
  from generate_power_chord_riff_Inr [OF e] obtain ds where
    d: "digits b' = Inr ds" and p: "pnotes = concat (map power_chord ds)" by blast
  from n p obtain x where x: "x \<in> set ds" "n \<in> set (power_chord x)" by auto
  from digits_range [OF d x(1)] have "0 \<le> x" "x \<le> 9" by simp_all
  from power_chord_note [OF x(2) this]
  show "0 \<le> string n" "string n \<le> 5" "duration n = 1 \<or> duration n = 2"
    "0 \<le> fret n" "fret n \<le> 14" by simp_all
qed

theorem note_invariants_witness:
  "fst (barcode_to_notes (BarcodeToTab_init ''E'' 12 CHROMATIC) ''9'' []) =
     Inr [\<lparr>string = 0, fret = 9, duration = 1\<rparr>] \<and>
   generate_power_chord_riff default_converter ''9'' =
     Inr [\<lparr>string = 0, fret = 9, duration = 2\<rparr>, \<lparr>string = 1, fret = 11, duration = 2\<rparr>] \<and>
   (0::int) \<le> 12 \<and>
   0 \<le> fret \<lparr>string = 0, fret = 9, duration = 1\<rparr> \<and>
   fret \<lparr>string = 0, fret = 9, duration = 1\<rparr> \<le> 19 \<and>
   string \<lparr>string = 1, fret = 11, duration = 2\<rparr> \<le> 5 \<and>
   fret \<lparr>string = 1, fret = 11, duration = 2\<rparr> \<le> 14"
proof -
  let ?n = "\<lparr>string = 0, fret = 9, duration = 1\<rparr>"
  let ?p = "\<lparr>string = 0, fret = 9, duration = 2\<rparr>"
  let ?q = "\<lparr>string = 1, fret = 11, duration = 2\<rparr>"
  have e: "fst (barcode_to_notes (BarcodeToTab_init ''E'' 12 CHROMATIC) ''9'' []) = Inr [?n]"
    by (simp add: eval_defs)
  have g: "generate_power_chord_riff default_converter ''9'' = Inr [?p, ?q]"
    by (simp add: eval_defs)
  note inv = note_invariants [of "''E''" 12 CHROMATIC "''9''" "[]" "[?n]"
      default_converter "''9''" "[?p, ?q]"]
  from inv e have "0 \<le> fret ?n \<and> fret ?n \<le> 19" by simp
  moreover from inv g have "string ?q \<le> 5 \<and> fret ?q \<le> 14" by simp
  ultimately show ?thesis using e g by simp
qed

section \<open>The renderer\<close>



text \<open>
  Outside the data model the renderer can raise: \<open>GuitarNote\<close> accepts any integers, a
  note on string \<open>-1\<close> makes the renderer index row 6 of six rows, and a fret of more than
  \<open>int_max_str_digits\<close> digits makes \<open>str\<close> raise.
\<close>

lemma render_string_out_of_range_raises:
  "notes_to_tab default_converter [\<lparr>string = - 1, fret = 0, duration = 1\<rparr>] ''Barcode Riff'' =
     Inl IndexError"
  by (simp add: render_defs)

lemma render_huge_fret_raises:
  "notes_to_tab default_converter
     [\<lparr>string = 0, fret = 10 ^ int_max_str_digits, duration = 1\<rparr>] ''Barcode Riff'' =
     Inl ValueError"
proof -
  have "py_str (10 ^ int_max_str_digits) = Inl ValueError" by (rule py_str_Inl) simp
  then show ?thesis by (simp add: notes_to_tab_def tab_grid_def)
qed

section \<open>The facade\<close>

text \<open>
  Claim C8. For every input string with no digit \<open>convert\<close> raises nothing and returns
  the text \<open>No notes to display\<close>, and no exception leaves the transform for any input
  string. The code does not do this on every string: the barcode U+00B2 (superscript two)
  has no decimal digit, and \<open>convert\<close> raises \<open>ValueError\<close> on it in both modes.
\<close>

theorem convert_superscript_raises:
  "convert default_converter [CHR 0xB2] False [] = (Inl ValueError, []) \<and>
   convert default_converter [CHR 0xB2] True [] = (Inl ValueError, [])"
  by (simp add: convert_def eval_defs)

text \<open>
  On a barcode in which every character that \<open>isdigit\<close> accepts is a decimal digit, a
  converter built with a root fret that is not negative returns a text in both modes, and
  the placeholder when \<open>isdigit\<close> accepts no character of the barcode.
\<close>

theorem convert_no_exception:
  assumes "\<forall>c \<in> set b. isdigit c \<longrightarrow> isdecimal c" and rf: "0 \<le> rf"
  shows "(\<exists>text. fst (convert (BarcodeToTab_init rn rf m) b p out) = Inr text) \<and>
         ((\<forall>c \<in> set b. \<not> isdigit c) \<longrightarrow>
            fst (convert (BarcodeToTab_init rn rf m) b p out) = Inr ''No notes to display'')"
proof
  let ?self = "BarcodeToTab_init rn rf m"
  let ?ds = "map digit_value (filter isdecimal b)"
  have s: "scale ?self \<noteq> []" using SCALES_nonempty [of m] by (simp add: BarcodeToTab_init_def)
  have e: "fst (barcode_to_notes ?self b out) = Inr (melodic_notes ?self ?ds)"
    by (rule barcode_to_notes_total [OF s assms(1)])
  have g: "generate_power_chord_riff ?self b = Inr (concat (map power_chord ?ds))"
    by (rule generate_power_chord_riff_total [OF assms(1)])
  show "\<exists>text. fst (convert ?self b p out) = Inr text"
  proof (cases p)
    case True
    have "\<forall>n \<in> set (concat (map power_chord ?ds)). valid_note n"
      using power_chord_valid by blast
    from notes_to_tab_ok [OF this, of ?self "''Power Chord Riff - '' @ b"] g True
    show ?thesis by (auto simp: convert_def)
  next
    case False
    have "\<forall>n \<in> set (melodic_notes ?self ?ds). valid_note n"
      using melodic_notes_valid [OF rf] by blast
    from notes_to_tab_ok [OF this, of ?self "''Barcode Riff - '' @ b"] e False
    show ?thesis by (auto simp: convert_def split: prod.splits sum.splits)
  qed
  show "(\<forall>c \<in> set b. \<not> isdigit c) \<longrightarrow> fst (convert ?self b p out) = Inr ''No notes to display''"
  proof
    assume "\<forall>c \<in> set b. \<not> isdigit c"
    then have "\<forall>c \<in> set b. \<not> isdecimal c" using isdecimal_isdigit by blast
    then have "filter isdecimal b = []" by (simp add: filter_empty_conv)
    with e g show "fst (convert ?self b p out) = Inr ''No notes to display''"
      by (cases p) (auto simp: convert_def notes_to_tab_def melodic_notes_def
          split: prod.splits sum.splits)
  qed
qed

theorem convert_no_exception_witness:
  "fst (convert (BarcodeToTab_init ''E'' 0 MINOR_PENTATONIC) ''abc'' False []) =
     Inr ''No notes to display'' \<and>
   fst (convert (BarcodeToTab_init ''E'' 0 MINOR_PENTATONIC) [] True []) =
     Inr ''No notes to display''"
proof -
  have a: "\<forall>c \<in> set ''abc''. \<not> isdigit c" by (simp add: isdigit_def)
  then have a': "\<forall>c \<in> set ''abc''. isdigit c \<longrightarrow> isdecimal c" by blast
  have b: "\<forall>c \<in> set ''''. isdigit c \<longrightarrow> isdecimal c" by simp
  have z: "(0::int) \<le> 0" by simp
  from convert_no_exception [OF a' z, of "''E''" MINOR_PENTATONIC False "[]"] a
  have 1: "fst (convert (BarcodeToTab_init ''E'' 0 MINOR_PENTATONIC) ''abc'' False []) =
     Inr ''No notes to display''" by blast
  from convert_no_exception [OF b z, of "''E''" MINOR_PENTATONIC True "[]"]
  have 2: "fst (convert (BarcodeToTab_init ''E'' 0 MINOR_PENTATONIC) [] True []) =
     Inr ''No notes to display''" by simp
  from 1 2 show ?thesis by simp
qed

text \<open>
  What \<open>convert\<close> returns does not depend on what has been printed before the call.
\<close>

lemma convert_result_ignores_stdout:
  "fst (convert self barcode use_power_chords out1) =
     fst (convert self barcode use_power_chords out2)"
  by (simp add: convert_def barcode_to_notes_def split: sum.splits)

end
